theory Spec2Isabelle
  imports Main "HOL-Library.Multiset" "HOL-Library.Sublist"
begin

section \<open>Lane packing: \<open>CalendarApp._compute_lanes\<close>\<close>

text \<open>
  An instant is an aware \<open>datetime\<close> (every parsed value goes through
  \<open>astimezone()\<close>), compared by its position on the time line: an integer number of
  microseconds.
\<close>

type_synonym instant = int

text \<open>
  An event is the dictionary of the calendar provider. The packer reads
  \<open>ev.get("start", {}).get("dateTime")\<close> and \<open>ev.get("end", {}).get("dateTime")\<close>: both are
  \<open>None\<close> when the key is missing. The re-plan check reads \<open>ev.get("summary", "")\<close>.
\<close>

record event =
  ev_id :: string
  summary :: string
  start_dateTime :: "string option"
  end_dateTime :: "string option"

text \<open>Python's \<open>not s\<close> for an optional string: \<open>None\<close> and the empty string are falsy.\<close>

definition falsy :: "string option \<Rightarrow> bool" where
  "falsy v = (v = None \<or> v = Some [])"

text \<open>
  The inner function \<open>parse\<close> is \<open>datetime.fromisoformat(...).astimezone()\<close>, a library
  function: it is a parameter here, \<open>None\<close> standing for a raised exception. One turn of
  the first loop: an event without both timestamps is skipped, and so is one whose start
  or end fails to parse (\<open>except Exception: continue\<close>); the start is parsed first.
\<close>

type_synonym item = "event \<times> instant \<times> instant"

definition parsed_item :: "(string \<Rightarrow> instant option) \<Rightarrow> event \<Rightarrow> item option" where
  "parsed_item parse ev =
     (if falsy (start_dateTime ev) \<or> falsy (end_dateTime ev) then None
      else (case parse (the (start_dateTime ev)) of
              None \<Rightarrow> None
            | Some s \<Rightarrow> (case parse (the (end_dateTime ev)) of
                          None \<Rightarrow> None
                        | Some e \<Rightarrow> Some (ev, s, e))))"

definition item_start :: "item \<Rightarrow> instant" where
  "item_start x = fst (snd x)"

definition item_end :: "item \<Rightarrow> instant" where
  "item_end x = snd (snd x)"

text \<open>
  The inner loop \<open>for i in range(len(lanes)): if s >= lanes[i]: ... break\<close>, from index
  \<open>i\<close> on: the first lane whose recorded end is not after \<open>s\<close>, or \<open>None\<close> when the loop
  ends with \<open>placed\<close> still false.
\<close>

function scan_lanes :: "instant list \<Rightarrow> instant \<Rightarrow> nat \<Rightarrow> nat option" where
  "scan_lanes lanes s i =
     (if i < length lanes
      then (if s \<ge> lanes ! i then Some i else scan_lanes lanes s (Suc i))
      else None)"
  by pat_completeness auto
termination
  by (relation "measure (\<lambda>(lanes, s, i). length lanes - i)") auto

declare scan_lanes.simps [simp del]

text \<open>
  The body of the second loop on the pair \<open>(lanes, layout)\<close>. The source appends
  \<open>(ev, i, None)\<close> and replaces the \<open>None\<close> by the lane count at the end; the layout here
  holds the pairs \<open>(ev, i)\<close>. A new lane gets the index \<open>len(lanes) - 1\<close>, read after the
  append.
\<close>

type_synonym pack_state = "instant list \<times> (event \<times> nat) list"

definition place :: "item \<Rightarrow> pack_state \<Rightarrow> pack_state" where
  "place x st =
     (case st of (lanes, layout) \<Rightarrow>
        (case scan_lanes lanes (item_start x) 0 of
           Some i \<Rightarrow> (lanes[i := item_end x], layout @ [(fst x, i)])
         | None \<Rightarrow> (lanes @ [item_end x],
                    layout @ [(fst x, length (lanes @ [item_end x]) - 1)])))"

definition pack_items :: "item list \<Rightarrow> pack_state" where
  "pack_items xs = fold place xs ([], [])"

text \<open>The first loop: the items, in the order of the input.\<close>

definition day_items :: "(string \<Rightarrow> instant option) \<Rightarrow> event list \<Rightarrow> item list" where
  "day_items parse events = List.map_filter (parsed_item parse) events"

text \<open>
  \<open>items.sort(key=lambda x: x[1])\<close> is a stable sort on the start instant, as
  \<open>sort_key\<close> is.
\<close>

definition sorted_items :: "(string \<Rightarrow> instant option) \<Rightarrow> event list \<Rightarrow> item list" where
  "sorted_items parse events = sort_key item_start (day_items parse events)"

definition compute_lanes ::
  "(string \<Rightarrow> instant option) \<Rightarrow> event list \<Rightarrow> (event \<times> nat \<times> nat) list" where
  "compute_lanes parse events =
     (case pack_items (sorted_items parse events) of (lanes, layout) \<Rightarrow>
        map (\<lambda>(ev, lane). (ev, lane, length lanes)) layout)"

text \<open>The value of \<open>lane_count = len(lanes)\<close> at the end of the second loop.\<close>

definition lanes_opened :: "(string \<Rightarrow> instant option) \<Rightarrow> event list \<Rightarrow> nat" where
  "lanes_opened parse events = length (fst (pack_items (sorted_items parse events)))"

text \<open>The start and end the packer uses for an event, \<open>None\<close> when it skips the event.\<close>

definition event_times :: "(string \<Rightarrow> instant option) \<Rightarrow> event \<Rightarrow> (instant \<times> instant) option" where
  "event_times parse ev = map_option snd (parsed_item parse ev)"

subsection \<open>The overlap depth of a day\<close>

text \<open>
  An item is active at an instant from its start on and before its end: two items
  overlap exactly when some instant has both active, which is the negation of
  \<open>a.end <= b.start or b.end <= a.start\<close> for items of positive duration.
\<close>

definition active_at :: "instant \<Rightarrow> item \<Rightarrow> bool" where
  "active_at t x = (item_start x \<le> t \<and> t < item_end x)"

text \<open>The number of items active at an instant.\<close>

definition depth_at :: "item list \<Rightarrow> instant \<Rightarrow> nat" where
  "depth_at xs t = length (filter (active_at t) xs)"

text \<open>
  The overlap depth by direct count: the largest number of active items at a start
  instant, the only places where the number of active items can grow.
\<close>

definition overlap_depth :: "item list \<Rightarrow> nat" where
  "overlap_depth xs = foldr max (map (\<lambda>x. depth_at xs (item_start x)) xs) 0"

text \<open>
  The sweep line. Every item gives two boundary points, its start with \<open>+1\<close> and its end
  with \<open>-1\<close>. The line visits them in the order of time, the ends of an instant before
  its starts, adds each to a running count and keeps the largest count seen.
\<close>

definition boundary_points :: "item list \<Rightarrow> (instant \<times> int) list" where
  "boundary_points xs = concat (map (\<lambda>x. [(item_start x, 1), (item_end x, - 1)]) xs)"

definition sweep_key :: "instant \<times> int \<Rightarrow> int" where
  "sweep_key p = 2 * fst p + (if snd p < 0 then 0 else 1)"

fun sweep :: "(instant \<times> int) list \<Rightarrow> int \<Rightarrow> int \<Rightarrow> int" where
  "sweep [] cur best = best"
| "sweep (p # ps) cur best = sweep ps (cur + snd p) (max best (cur + snd p))"

definition sweep_depth :: "item list \<Rightarrow> nat" where
  "sweep_depth xs = nat (sweep (sort_key sweep_key (boundary_points xs)) 0 0)"

text \<open>
  An assignment of lanes to the positions of an item list is valid for \<open>m\<close> lanes when
  every lane is below \<open>m\<close> and two items of one lane do not overlap.
\<close>

definition valid_assignment :: "item list \<Rightarrow> (nat \<Rightarrow> nat) \<Rightarrow> nat \<Rightarrow> bool" where
  "valid_assignment xs g m =
     ((\<forall>k<length xs. g k < m) \<and>
      (\<forall>j<length xs. \<forall>k<length xs. j \<noteq> k \<and> g j = g k \<longrightarrow>
          item_end (xs ! j) \<le> item_start (xs ! k) \<or> item_end (xs ! k) \<le> item_start (xs ! j)))"

subsection \<open>Invariants of the packing loop\<close>

text \<open>The lane of the \<open>k\<close>-th entry of the layout.\<close>

definition lane_of :: "(event \<times> nat) list \<Rightarrow> nat \<Rightarrow> nat" where
  "lane_of layout k = snd (layout ! k)"

text \<open>
  What holds of \<open>lanes\<close> and \<open>layout\<close> after the loop has placed the items \<open>xs\<close>, taken
  in the order of their starts: the layout lists the events of \<open>xs\<close>; every lane index is
  that of an open lane; every open lane holds an item whose end is the recorded end of
  the lane; the recorded end of the lane of an item is the end of that item or of a later
  one in the same lane; and an earlier item of a lane ends before a later one starts.
\<close>

definition pack_inv :: "item list \<Rightarrow> pack_state \<Rightarrow> bool" where
  "pack_inv xs st =
     (case st of (lanes, layout) \<Rightarrow>
        map fst layout = map fst xs \<and>
        (\<forall>k<length xs. lane_of layout k < length lanes) \<and>
        (\<forall>i<length lanes. \<exists>k<length xs. lane_of layout k = i \<and> item_end (xs ! k) = lanes ! i) \<and>
        (\<forall>k<length xs. \<exists>k'<length xs. k \<le> k' \<and> lane_of layout k' = lane_of layout k \<and>
             item_end (xs ! k') = lanes ! lane_of layout k) \<and>
        (\<forall>j k. j < k \<and> k < length xs \<and> lane_of layout j = lane_of layout k \<longrightarrow>
             item_end (xs ! j) \<le> item_start (xs ! k)))"


subsection \<open>A day with three events\<close>

text \<open>
  The events A (09:00 to 10:00), B (09:30 to 10:30) and C (10:00 to 11:00) of one day,
  with the instants of their timestamps in microseconds after midnight.
\<close>

definition scenario_parse :: "string \<Rightarrow> instant option" where
  "scenario_parse = map_of
     [(''2024-03-04T09:00:00Z'', 32400000000),
      (''2024-03-04T09:30:00Z'', 34200000000),
      (''2024-03-04T10:00:00Z'', 36000000000),
      (''2024-03-04T10:30:00Z'', 37800000000),
      (''2024-03-04T11:00:00Z'', 39600000000)]"

definition timed_event :: "string \<Rightarrow> string \<Rightarrow> string \<Rightarrow> event" where
  "timed_event name s e = \<lparr>ev_id = name, summary = name, start_dateTime = Some s, end_dateTime = Some e\<rparr>"

definition scenario_events :: "event list" where
  "scenario_events =
     [timed_event ''A'' ''2024-03-04T09:00:00Z'' ''2024-03-04T10:00:00Z'',
      timed_event ''B'' ''2024-03-04T09:30:00Z'' ''2024-03-04T10:30:00Z'',
      timed_event ''C'' ''2024-03-04T10:00:00Z'' ''2024-03-04T11:00:00Z'']"

subsection \<open>Events the packer keeps, and where they start\<close>


text \<open>The event is kept and its parsed start is \<open>t\<close>.\<close>

definition starts_at :: "(string \<Rightarrow> instant option) \<Rightarrow> instant \<Rightarrow> event \<Rightarrow> bool" where
  "starts_at parse t ev = (map_option fst (event_times parse ev) = Some t)"

subsection \<open>Further days\<close>

text \<open>Two events that start together, listed against the alphabet, after a later-listed earlier one.\<close>

definition tied_events :: "event list" where
  "tied_events =
     [timed_event ''zebra'' ''2024-03-04T09:30:00Z'' ''2024-03-04T10:00:00Z'',
      timed_event ''apple'' ''2024-03-04T09:30:00Z'' ''2024-03-04T10:30:00Z'',
      timed_event ''mango'' ''2024-03-04T09:00:00Z'' ''2024-03-04T09:30:00Z'']"

text \<open>The same day under other titles and identifiers.\<close>

definition renamed_events :: "event list" where
  "renamed_events =
     [timed_event ''a'' ''2024-03-04T09:30:00Z'' ''2024-03-04T10:00:00Z'',
      timed_event ''z'' ''2024-03-04T09:30:00Z'' ''2024-03-04T10:30:00Z'',
      timed_event ''m'' ''2024-03-04T09:00:00Z'' ''2024-03-04T09:30:00Z'']"

text \<open>An event of no duration that starts when another ends.\<close>

definition instant_events :: "event list" where
  "instant_events =
     [timed_event ''standup'' ''2024-03-04T09:00:00Z'' ''2024-03-04T10:00:00Z'',
      timed_event ''ping'' ''2024-03-04T10:00:00Z'' ''2024-03-04T10:00:00Z'']"

text \<open>An event of no duration in the middle of another.\<close>

definition pause_events :: "event list" where
  "pause_events =
     [timed_event ''workshop'' ''2024-03-04T09:00:00Z'' ''2024-03-04T10:00:00Z'',
      timed_event ''reminder'' ''2024-03-04T09:30:00Z'' ''2024-03-04T09:30:00Z'']"


section \<open>The re-plan coordinator: \<open>refresh_events\<close> and \<open>_check_and_replan\<close>\<close>

text \<open>
  Modelled from the spec: the class \<open>Task\<close> of the module \<open>task_scheduler\<close>, which is not
  part of the source. A tracked task is scheduled or not; the check reads the truth value
  of \<open>t.scheduled_start\<close> and nothing else of a task.
\<close>

record task =
  task_title :: string
  scheduled_start :: "instant option"

text \<open>
  Modelled from the spec: the class \<open>CapacityWarning\<close> of the module
  \<open>ai_calendar_optimizer\<close>, which is not part of the source. A warning has a severity,
  one of normal, warning and critical; the check compares \<open>w.severity\<close> with the string
  \<open>"critical"\<close> and reads nothing else of a warning.
\<close>

record capacity_warning =
  severity :: string
  warning_message :: string

text \<open>
  The attributes of \<open>CalendarApp\<close> the coordinator reads and writes: \<open>self.events\<close>,
  \<open>self.scheduler.tasks\<close>, \<open>self._is_replanning\<close>, \<open>self._last_replan_time\<close>,
  \<open>self._replan_cooldown\<close> (in seconds) and \<open>self.optimizer.replan_on_event_change\<close>.
\<close>

record app =
  app_events :: "event list"
  scheduler_tasks :: "task list"
  is_replanning :: bool
  last_replan_time :: "instant option"
  replan_cooldown :: int
  replan_on_event_change :: bool

text \<open>The values \<open>__init__\<close> assigns.\<close>

definition init_app :: app where
  "init_app = \<lparr>app_events = [], scheduler_tasks = [], is_replanning = False,
     last_replan_time = None, replan_cooldown = 5, replan_on_event_change = True\<rparr>"

text \<open>
  \<open>_check_and_replan\<close> returns nothing; the outcome names the place where a call leaves
  the function: the three early returns, the end of the function with \<open>should_replan\<close>
  false, the start of a worker thread with its reason string, and the handler
  \<open>except Exception\<close>.
\<close>

datatype outcome =
    AlreadyRunning
  | Cooldown
  | NothingToReplan
  | NotNeeded
  | Accepted string
  | CheckFailed

text \<open>
  \<open>self._last_replan_time\<close> is set and \<open>(now - self._last_replan_time).total_seconds() <
  self._replan_cooldown\<close>. Instants are microseconds, the resolution of \<open>datetime\<close>, so
  the seconds of the cooldown are scaled.
\<close>

definition in_cooldown :: "instant \<Rightarrow> app \<Rightarrow> bool" where
  "in_cooldown now st =
     (case last_replan_time st of
        None \<Rightarrow> False
      | Some t \<Rightarrow> now - t < replan_cooldown st * 1000000)"

text \<open>\<open>any(ev.get("summary", "").startswith("[Task]") for ev in events)\<close>\<close>

definition has_task_events :: "app \<Rightarrow> bool" where
  "has_task_events st = list_ex (\<lambda>ev. prefix ''[Task]'' (summary ev)) (app_events st)"

text \<open>\<open>any(t.scheduled_start for t in self.scheduler.tasks)\<close>\<close>

definition has_scheduled_tasks :: "app \<Rightarrow> bool" where
  "has_scheduled_tasks st = list_ex (\<lambda>t. scheduled_start t \<noteq> None) (scheduler_tasks st)"

text \<open>\<open>[w for w in warnings if w.severity == "critical"]\<close>\<close>

definition critical_of :: "capacity_warning list \<Rightarrow> capacity_warning list" where
  "critical_of warnings = filter (\<lambda>w. severity w = ''critical'') warnings"

text \<open>
  \<open>_check_and_replan\<close>, called on the user-interface thread. Its inputs from outside are
  the reading \<open>now\<close> of the clock and the result \<open>capacity\<close> of
  \<open>self.optimizer.analyze_capacity(days=3)\<close>, \<open>None\<close> when that call raises: the handler
  then clears the flag. The optimizer is asked only after the three early returns.
\<close>

definition check_and_replan ::
  "instant \<Rightarrow> capacity_warning list option \<Rightarrow> app \<Rightarrow> outcome \<times> app" where
  "check_and_replan now capacity st =
     (if is_replanning st then (AlreadyRunning, st)
      else if in_cooldown now st then (Cooldown, st)
      else if \<not> has_task_events st \<and> \<not> has_scheduled_tasks st then (NothingToReplan, st)
      else (case capacity of
              None \<Rightarrow> (CheckFailed, st\<lparr>is_replanning := False\<rparr>)
            | Some warnings \<Rightarrow>
                (let critical = critical_of warnings;
                     should_replan = (critical \<noteq> [] \<or> (has_task_events st \<and> \<not> is_replanning st))
                 in if should_replan
                    then (Accepted (if critical \<noteq> [] then ''Critical capacity overload detected''
                                    else ''Schedule change - shuffling tasks''),
                          st\<lparr>is_replanning := True, last_replan_time := Some now\<rparr>)
                    else (NotNeeded, st))))"

text \<open>
  What \<open>self.optimizer.auto_replan(reason)\<close> gives the worker: a dictionary whose status
  is \<open>"success"\<close> (with the two counts), \<open>"no_tasks"\<close> or something else (with a message), or
  an exception.
\<close>

datatype replan_result =
    Success nat nat
  | NoTasks
  | OtherStatus string
  | Raised string

text \<open>
  The worker touches no attribute itself: it posts callbacks with \<open>self.root.after(0, ...)\<close>,
  which the user-interface thread runs later, in the order posted.
\<close>

datatype ui_callback =
    ClearReplanning
  | ShowInfo string
  | Refresh bool
  | PrintMessage string

text \<open>
  The callbacks \<open>replan_async\<close> posts once \<open>auto_replan\<close> has returned or raised. The
  refresh is posted as \<open>self.refresh_events(skip_replan=True)\<close>.
\<close>

fun replan_async :: "replan_result \<Rightarrow> ui_callback list" where
  "replan_async (Success calendar_count scheduler_count) =
     [ClearReplanning, ShowInfo ''Auto-Replan Complete'', Refresh True]"
| "replan_async NoTasks = [ClearReplanning]"
| "replan_async (OtherStatus message) = [ClearReplanning, PrintMessage message]"
| "replan_async (Raised message) = [ClearReplanning]"

text \<open>
  What a call of \<open>refresh_events\<close> meets: the clock, the result of
  \<open>self.client.list_events\<close> (\<open>None\<close> when it raises), whether \<open>self._render()\<close> returns, and
  the capacity analysis.
\<close>

record refresh_env =
  env_now :: instant
  env_listed :: "event list option"
  env_rendered :: bool
  env_capacity :: "capacity_warning list option"

text \<open>
  \<open>refresh_events(skip_replan)\<close>. An exception of the provider or of the drawing code
  ends the call in the error dialog, before the check. The first component of the result
  is \<open>None\<close> when \<open>_check_and_replan\<close> is not called. \<open>_update_ai_analysis\<close> changes only what
  is displayed and catches its own exceptions.
\<close>

definition refresh_events :: "bool \<Rightarrow> refresh_env \<Rightarrow> app \<Rightarrow> outcome option \<times> app" where
  "refresh_events skip_replan env st =
     (case env_listed env of
        None \<Rightarrow> (None, st)
      | Some items \<Rightarrow>
          (let st1 = st\<lparr>app_events := items\<rparr>
           in if \<not> env_rendered env then (None, st1)
              else if replan_on_event_change st1 \<and> \<not> skip_replan \<and> \<not> is_replanning st1
                   then (case check_and_replan (env_now env) (env_capacity env) st1 of
                           (out, st2) \<Rightarrow> (Some out, st2))
                   else (None, st1)))"

subsection \<open>The application with its worker threads\<close>

text \<open>
  The application together with the worker threads that are inside \<open>auto_replan\<close> (by
  their reason strings, oldest first) and the callbacks posted to the user-interface
  thread and not yet run.
\<close>

record system =
  app_of :: app
  workers :: "string list"
  ui_queue :: "ui_callback list"

definition init_system :: system where
  "init_system = \<lparr>app_of = init_app, workers = [], ui_queue = []\<rparr>"

text \<open>
  What can happen, one at a time: the user-interface thread calls \<open>refresh_events\<close> (a
  button, an edit, a week change, the end of a manual shuffle) or \<open>_check_and_replan\<close>;
  the \<open>auto_replan\<close> of the oldest worker returns or raises and the worker posts its
  callbacks; the user-interface thread runs the oldest posted callback; the task list
  or the setting \<open>replan_on_event_change\<close> is changed.
\<close>

datatype ui_event =
    Refreshed bool refresh_env
  | Checked instant "capacity_warning list option"
  | WorkerReturns replan_result
  | RunCallback refresh_env
  | TasksChanged "task list"
  | ReplanOnChangeSet bool

text \<open>The worker thread an outcome starts, if any.\<close>

definition dispatched :: "outcome option \<Rightarrow> string list" where
  "dispatched out = (case out of Some (Accepted reason) \<Rightarrow> [reason] | _ \<Rightarrow> [])"

definition run_callback :: "ui_callback \<Rightarrow> refresh_env \<Rightarrow> system \<Rightarrow> system" where
  "run_callback cb env s =
     (case cb of
        ClearReplanning \<Rightarrow> s\<lparr>app_of := (app_of s)\<lparr>is_replanning := False\<rparr>\<rparr>
      | ShowInfo msg \<Rightarrow> s
      | PrintMessage msg \<Rightarrow> s
      | Refresh skip_replan \<Rightarrow>
          (case refresh_events skip_replan env (app_of s) of
             (out, st) \<Rightarrow> s\<lparr>app_of := st, workers := workers s @ dispatched out\<rparr>))"

fun step :: "ui_event \<Rightarrow> system \<Rightarrow> system" where
  "step (Refreshed skip_replan env) s =
     (case refresh_events skip_replan env (app_of s) of
        (out, st) \<Rightarrow> s\<lparr>app_of := st, workers := workers s @ dispatched out\<rparr>)"
| "step (Checked now capacity) s =
     (case check_and_replan now capacity (app_of s) of
        (out, st) \<Rightarrow> s\<lparr>app_of := st, workers := workers s @ dispatched (Some out)\<rparr>)"
| "step (WorkerReturns result) s =
     (case workers s of
        [] \<Rightarrow> s
      | reason # rest \<Rightarrow> s\<lparr>workers := rest, ui_queue := ui_queue s @ replan_async result\<rparr>)"
| "step (RunCallback env) s =
     (case ui_queue s of
        [] \<Rightarrow> s
      | cb # rest \<Rightarrow> run_callback cb env (s\<lparr>ui_queue := rest\<rparr>))"
| "step (TasksChanged ts) s = s\<lparr>app_of := (app_of s)\<lparr>scheduler_tasks := ts\<rparr>\<rparr>"
| "step (ReplanOnChangeSet b) s = s\<lparr>app_of := (app_of s)\<lparr>replan_on_event_change := b\<rparr>\<rparr>"

definition run :: "ui_event list \<Rightarrow> system \<Rightarrow> system" where
  "run evs s = fold step evs s"

text \<open>
  The return of a worker followed by the run of each callback it posted, all under the
  same conditions \<open>env\<close>.
\<close>

definition completion :: "replan_result \<Rightarrow> refresh_env \<Rightarrow> ui_event list" where
  "completion result env =
     WorkerReturns result # map RunCallback (replicate (length (replan_async result)) env)"


definition is_accepted :: "outcome \<Rightarrow> bool" where
  "is_accepted out = (case out of Accepted reason \<Rightarrow> True | _ \<Rightarrow> False)"

text \<open>
  The flag is set exactly while one worker is inside \<open>auto_replan\<close> or the callback that
  clears the flag waits to be run, and never both; no posted refresh asks for the check.
\<close>

definition pending_clears :: "system \<Rightarrow> nat" where
  "pending_clears s = length (filter (\<lambda>cb. cb = ClearReplanning) (ui_queue s))"

definition exclusive :: "system \<Rightarrow> bool" where
  "exclusive s =
     (length (workers s) + pending_clears s = (if is_replanning (app_of s) then 1 else 0)
      \<and> Refresh False \<notin> set (ui_queue s))"

subsection \<open>Sessions\<close>

text \<open>A calendar with one movable event, a critical warning, and ten calls a millisecond apart.\<close>

definition task_event :: event where
  "task_event = \<lparr>ev_id = ''t1'', summary = ''[Task] write report'',
     start_dateTime = Some ''2024-03-04T09:00:00Z'', end_dateTime = Some ''2024-03-04T10:00:00Z''\<rparr>"

definition critical_warning :: capacity_warning where
  "critical_warning = \<lparr>severity = ''critical'', warning_message = ''overload''\<rparr>"

definition planned_app :: app where
  "planned_app = init_app\<lparr>app_events := [task_event]\<rparr>"

definition planned_system :: system where
  "planned_system = init_system\<lparr>app_of := planned_app\<rparr>"

definition overloaded_env :: "instant \<Rightarrow> refresh_env" where
  "overloaded_env now = \<lparr>env_now = now, env_listed = Some [task_event], env_rendered = True,
     env_capacity = Some [critical_warning]\<rparr>"


text \<open>
  A re-plan accepted at second 0 whose worker fails; the callback that clears the flag
  runs at second 7.
\<close>

definition failed_run :: "ui_event list" where
  "failed_run =
     [Checked 0 (Some []),
      WorkerReturns (Raised ''backend unavailable''),
      RunCallback (overloaded_env 7000000)]"

text \<open>The planned calendar after a critical re-plan has been accepted at second 0.\<close>

definition running_system :: system where
  "running_system = step (Checked 0 (Some [critical_warning])) planned_system"

text \<open>A calendar with nothing to move: a meeting, and a task that is not scheduled.\<close>

definition meeting_event :: event where
  "meeting_event = \<lparr>ev_id = ''m1'', summary = ''Team meeting'',
     start_dateTime = Some ''2024-03-04T09:00:00Z'', end_dateTime = Some ''2024-03-04T10:00:00Z''\<rparr>"

definition unscheduled_task :: task where
  "unscheduled_task = \<lparr>task_title = ''write report'', scheduled_start = None\<rparr>"

definition fixed_app :: app where
  "fixed_app = init_app\<lparr>app_events := [meeting_event], scheduler_tasks := [unscheduled_task]\<rparr>"

section \<open>Properties of the lane packing\<close>

subsection \<open>The scan and the loop invariant\<close>

lemma scan_lanes_SomeD:
  "scan_lanes lanes s i = Some j \<Longrightarrow>
     i \<le> j \<and> j < length lanes \<and> lanes ! j \<le> s \<and> (\<forall>k. i \<le> k \<and> k < j \<longrightarrow> s < lanes ! k)"
proof (induction lanes s i rule: scan_lanes.induct)
  case (1 lanes s i)
  show ?case
  proof (cases "i < length lanes \<and> \<not> lanes ! i \<le> s")
    case True
    then have "scan_lanes lanes s (Suc i) = Some j"
      using "1.prems" by (simp add: scan_lanes.simps [of lanes s i])
    with "1.IH" True
    have IH: "Suc i \<le> j \<and> j < length lanes \<and> lanes ! j \<le> s \<and> (\<forall>k. Suc i \<le> k \<and> k < j \<longrightarrow> s < lanes ! k)"
      by simp
    have "s < lanes ! k" if "i \<le> k" "k < j" for k
    proof (cases "k = i")
      case True
      then show ?thesis using \<open>i < length lanes \<and> \<not> lanes ! i \<le> s\<close> by simp
    next
      case False
      then show ?thesis using IH that by simp
    qed
    then show ?thesis using IH by auto
  next
    case False
    then show ?thesis using "1.prems"
      by (auto simp: scan_lanes.simps [of lanes s i] split: if_splits)
  qed
qed

lemma scan_lanes_NoneD:
  "scan_lanes lanes s i = None \<Longrightarrow> i \<le> k \<Longrightarrow> k < length lanes \<Longrightarrow> s < lanes ! k"
proof (induction lanes s i rule: scan_lanes.induct)
  case (1 lanes s i)
  have a: "i < length lanes" using "1.prems" by simp
  have b: "\<not> lanes ! i \<le> s" "scan_lanes lanes s (Suc i) = None"
    using "1.prems"(1) a by (auto simp: scan_lanes.simps [of lanes s i] split: if_splits)
  show ?case
  proof (cases "k = i")
    case True
    then show ?thesis using b by simp
  next
    case False
    then show ?thesis using "1.IH" a b "1.prems" by simp
  qed
qed

lemma pack_inv_reuse:
  assumes inv: "pack_inv xs (lanes, layout)"
    and srt: "\<forall>k<length xs. item_start (xs ! k) \<le> item_start x"
    and scan: "scan_lanes lanes (item_start x) 0 = Some i"
  shows "pack_inv (xs @ [x]) (lanes[i := item_end x], layout @ [(fst x, i)])"
proof -
  let ?n = "length xs"
  let ?xs = "xs @ [x]"
  let ?ly = "layout @ [(fst x, i)]"
  let ?ln = "lanes[i := item_end x]"
  from inv have len: "length layout = ?n"
    by (auto simp: pack_inv_def dest: arg_cong [where f = length])
  from inv have m: "map fst layout = map fst xs" by (simp add: pack_inv_def)
  from inv have c2: "\<And>k. k < ?n \<Longrightarrow> lane_of layout k < length lanes" by (simp add: pack_inv_def)
  from inv have c3: "\<And>j. j < length lanes \<Longrightarrow> \<exists>k<?n. lane_of layout k = j \<and> item_end (xs ! k) = lanes ! j"
    by (simp add: pack_inv_def)
  from inv have c4: "\<And>k. k < ?n \<Longrightarrow> \<exists>k'<?n. k \<le> k' \<and> lane_of layout k' = lane_of layout k \<and>
             item_end (xs ! k') = lanes ! lane_of layout k" by (simp add: pack_inv_def)
  from inv have c5: "\<And>j k. j < k \<Longrightarrow> k < ?n \<Longrightarrow> lane_of layout j = lane_of layout k \<Longrightarrow>
             item_end (xs ! j) \<le> item_start (xs ! k)" by (simp add: pack_inv_def)
  from scan_lanes_SomeD [OF scan] have i: "i < length lanes" "lanes ! i \<le> item_start x" by auto
  have lo: "\<And>k. k < ?n \<Longrightarrow> lane_of ?ly k = lane_of layout k" "lane_of ?ly ?n = i"
    using len by (auto simp: lane_of_def nth_append)
  have xo: "\<And>k. k < ?n \<Longrightarrow> ?xs ! k = xs ! k" "?xs ! ?n = x"
    by (auto simp: nth_append)
  have d1: "map fst ?ly = map fst ?xs" using m by simp
  have d2: "lane_of ?ly k < length ?ln" if "k < length ?xs" for k
  proof (cases "k < ?n")
    case True then show ?thesis using c2 lo by simp
  next
    case False then have "k = ?n" using that by simp
    then show ?thesis using lo i by simp
  qed
  have d3: "\<exists>k<length ?xs. lane_of ?ly k = j \<and> item_end (?xs ! k) = ?ln ! j" if "j < length ?ln" for j
  proof (cases "j = i")
    case True
    have "?n < length ?xs \<and> lane_of ?ly ?n = j \<and> item_end (?xs ! ?n) = ?ln ! j"
      using True lo xo i by simp
    then show ?thesis by blast
  next
    case False
    from that have "j < length lanes" by simp
    from c3 [OF this] obtain k where k: "k < ?n" "lane_of layout k = j" "item_end (xs ! k) = lanes ! j" by blast
    then have "k < length ?xs \<and> lane_of ?ly k = j \<and> item_end (?xs ! k) = ?ln ! j"
      using False lo xo by simp
    then show ?thesis by blast
  qed
  have d4: "\<exists>k'<length ?xs. k \<le> k' \<and> lane_of ?ly k' = lane_of ?ly k \<and>
             item_end (?xs ! k') = ?ln ! lane_of ?ly k" if "k < length ?xs" for k
  proof (cases "lane_of ?ly k = i")
    case True
    have "?n < length ?xs \<and> k \<le> ?n \<and> lane_of ?ly ?n = lane_of ?ly k \<and> item_end (?xs ! ?n) = ?ln ! lane_of ?ly k"
      using True lo xo i that by simp
    then show ?thesis by blast
  next
    case False
    then have kn: "k < ?n" using that lo by (cases "k = ?n") auto
    from c4 [OF kn] obtain k' where k': "k' < ?n" "k \<le> k'" "lane_of layout k' = lane_of layout k"
      "item_end (xs ! k') = lanes ! lane_of layout k" by blast
    then have "k' < length ?xs \<and> k \<le> k' \<and> lane_of ?ly k' = lane_of ?ly k \<and>
             item_end (?xs ! k') = ?ln ! lane_of ?ly k"
      using False lo xo kn by simp
    then show ?thesis by blast
  qed
  have d5: "item_end (?xs ! j) \<le> item_start (?xs ! k)"
    if "j < k" "k < length ?xs" "lane_of ?ly j = lane_of ?ly k" for j k
  proof (cases "k < ?n")
    case True
    then show ?thesis using c5 [of j k] that lo xo by simp
  next
    case False
    then have kn: "k = ?n" using that by simp
    then have jn: "j < ?n" and lj: "lane_of layout j = i" using that lo by auto
    from c4 [OF jn] obtain k' where k': "k' < ?n" "j \<le> k'" "lane_of layout k' = lane_of layout j"
      "item_end (xs ! k') = lanes ! lane_of layout j" by blast
    have e: "item_end (xs ! k') \<le> item_start x" using k' lj i by simp
    have "item_end (xs ! j) \<le> item_start x"
    proof (cases "j = k'")
      case True then show ?thesis using e by simp
    next
      case False
      then have "j < k'" using k' by simp
      from c5 [OF this k'(1)] k'(3) have "item_end (xs ! j) \<le> item_start (xs ! k')" by simp
      also have "\<dots> \<le> item_start x" using srt k' by simp
      finally show ?thesis .
    qed
    then show ?thesis using kn jn xo by simp
  qed
  show ?thesis
    unfolding pack_inv_def using d1 d2 d3 d4 d5 by simp
qed

lemma pack_inv_open:
  assumes inv: "pack_inv xs (lanes, layout)"
    and scan: "scan_lanes lanes (item_start x) 0 = None"
  shows "pack_inv (xs @ [x]) (lanes @ [item_end x], layout @ [(fst x, length lanes)])"
proof -
  let ?n = "length xs"
  let ?xs = "xs @ [x]"
  let ?ly = "layout @ [(fst x, length lanes)]"
  let ?ln = "lanes @ [item_end x]"
  from inv have len: "length layout = ?n"
    by (auto simp: pack_inv_def dest: arg_cong [where f = length])
  from inv have m: "map fst layout = map fst xs" by (simp add: pack_inv_def)
  from inv have c2: "\<And>k. k < ?n \<Longrightarrow> lane_of layout k < length lanes" by (simp add: pack_inv_def)
  from inv have c3: "\<And>j. j < length lanes \<Longrightarrow> \<exists>k<?n. lane_of layout k = j \<and> item_end (xs ! k) = lanes ! j"
    by (simp add: pack_inv_def)
  from inv have c4: "\<And>k. k < ?n \<Longrightarrow> \<exists>k'<?n. k \<le> k' \<and> lane_of layout k' = lane_of layout k \<and>
             item_end (xs ! k') = lanes ! lane_of layout k" by (simp add: pack_inv_def)
  from inv have c5: "\<And>j k. j < k \<Longrightarrow> k < ?n \<Longrightarrow> lane_of layout j = lane_of layout k \<Longrightarrow>
             item_end (xs ! j) \<le> item_start (xs ! k)" by (simp add: pack_inv_def)
  have lo: "\<And>k. k < ?n \<Longrightarrow> lane_of ?ly k = lane_of layout k" "lane_of ?ly ?n = length lanes"
    using len by (auto simp: lane_of_def nth_append)
  have xo: "\<And>k. k < ?n \<Longrightarrow> ?xs ! k = xs ! k" "?xs ! ?n = x"
    by (auto simp: nth_append)
  have no: "\<And>j. j < length lanes \<Longrightarrow> ?ln ! j = lanes ! j" "?ln ! length lanes = item_end x"
    by (auto simp: nth_append)
  have d1: "map fst ?ly = map fst ?xs" using m by simp
  have d2: "lane_of ?ly k < length ?ln" if "k < length ?xs" for k
  proof (cases "k < ?n")
    case True then show ?thesis using c2 [OF True] lo by simp
  next
    case False then have "k = ?n" using that by simp
    then show ?thesis using lo by simp
  qed
  have d3: "\<exists>k<length ?xs. lane_of ?ly k = j \<and> item_end (?xs ! k) = ?ln ! j" if "j < length ?ln" for j
  proof (cases "j = length lanes")
    case True
    have "?n < length ?xs \<and> lane_of ?ly ?n = j \<and> item_end (?xs ! ?n) = ?ln ! j"
      using True lo xo no by simp
    then show ?thesis by blast
  next
    case False
    with that have jl: "j < length lanes" by simp
    from c3 [OF this] obtain k where k: "k < ?n" "lane_of layout k = j" "item_end (xs ! k) = lanes ! j" by blast
    then have "k < length ?xs \<and> lane_of ?ly k = j \<and> item_end (?xs ! k) = ?ln ! j"
      using jl lo xo no by simp
    then show ?thesis by blast
  qed
  have d4: "\<exists>k'<length ?xs. k \<le> k' \<and> lane_of ?ly k' = lane_of ?ly k \<and>
             item_end (?xs ! k') = ?ln ! lane_of ?ly k" if "k < length ?xs" for k
  proof (cases "k < ?n")
    case False
    then have "k = ?n" using that by simp
    then have "?n < length ?xs \<and> k \<le> ?n \<and> lane_of ?ly ?n = lane_of ?ly k \<and> item_end (?xs ! ?n) = ?ln ! lane_of ?ly k"
      using lo xo no by simp
    then show ?thesis by blast
  next
    case True
    from c4 [OF True] obtain k' where k': "k' < ?n" "k \<le> k'" "lane_of layout k' = lane_of layout k"
      "item_end (xs ! k') = lanes ! lane_of layout k" by blast
    then have "k' < length ?xs \<and> k \<le> k' \<and> lane_of ?ly k' = lane_of ?ly k \<and>
             item_end (?xs ! k') = ?ln ! lane_of ?ly k"
      using True lo xo no c2 [OF True] by simp
    then show ?thesis by blast
  qed
  have d5: "item_end (?xs ! j) \<le> item_start (?xs ! k)"
    if "j < k" "k < length ?xs" "lane_of ?ly j = lane_of ?ly k" for j k
  proof (cases "k < ?n")
    case True
    then show ?thesis using c5 [of j k] that lo xo by simp
  next
    case False
    then have kn: "k = ?n" using that by simp
    then have jn: "j < ?n" and lj: "lane_of layout j = length lanes" using that lo by auto
    with c2 [OF jn] show ?thesis by simp
  qed
  show ?thesis
    unfolding pack_inv_def using d1 d2 d3 d4 d5 by simp
qed

lemma pack_inv_place:
  assumes inv: "pack_inv xs st"
    and srt: "\<forall>k<length xs. item_start (xs ! k) \<le> item_start x"
  shows "pack_inv (xs @ [x]) (place x st)"
proof (cases st)
  case (Pair lanes layout)
  show ?thesis
  proof (cases "scan_lanes lanes (item_start x) 0")
    case None
    then show ?thesis using pack_inv_open [of xs lanes layout x] inv Pair
      by (simp add: place_def)
  next
    case (Some i)
    then show ?thesis using pack_inv_reuse [of xs lanes layout x i] inv srt Pair
      by (simp add: place_def)
  qed
qed

lemma pack_items_snoc: "pack_items (xs @ [x]) = place x (pack_items xs)"
  by (simp add: pack_items_def)

lemma pack_inv_pack_items:
  "sorted (map item_start xs) \<Longrightarrow> pack_inv xs (pack_items xs)"
proof (induction xs rule: rev_induct)
  case Nil
  then show ?case by (simp add: pack_items_def pack_inv_def)
next
  case (snoc x xs)
  from snoc.prems have s: "sorted (map item_start xs)" and
    le: "\<forall>y\<in>set xs. item_start y \<le> item_start x"
    by (auto simp: sorted_append)
  have "\<forall>k<length xs. item_start (xs ! k) \<le> item_start x" using le by simp
  with snoc.IH [OF s] show ?case
    unfolding pack_items_snoc by (rule pack_inv_place)
qed

subsection \<open>Depth, lanes and assignments\<close>



lemma pack_inv_valid:
  assumes "pack_inv xs (lanes, layout)"
  shows "valid_assignment xs (lane_of layout) (length lanes)"
proof -
  from assms have c2: "\<And>k. k < length xs \<Longrightarrow> lane_of layout k < length lanes"
    by (simp add: pack_inv_def)
  from assms have c5: "\<And>j k. j < k \<Longrightarrow> k < length xs \<Longrightarrow> lane_of layout j = lane_of layout k \<Longrightarrow>
             item_end (xs ! j) \<le> item_start (xs ! k)" by (simp add: pack_inv_def)
  have "item_end (xs ! j) \<le> item_start (xs ! k) \<or> item_end (xs ! k) \<le> item_start (xs ! j)"
    if "j < length xs" "k < length xs" "j \<noteq> k" "lane_of layout j = lane_of layout k" for j k
  proof (cases "j < k")
    case True
    then show ?thesis using c5 [of j k] that by simp
  next
    case False
    then have "k < j" using that by simp
    then show ?thesis using c5 [of k j] that by simp
  qed
  then show ?thesis using c2 by (simp add: valid_assignment_def)
qed










subsection \<open>From the events to the output\<close>

lemma parsed_item_fst: "parsed_item parse ev = Some x \<Longrightarrow> fst x = ev"
  by (auto simp: parsed_item_def split: if_splits option.splits)

lemma day_items_eq: "day_items parse events = map (the \<circ> parsed_item parse) (filter (\<lambda>ev. parsed_item parse ev \<noteq> None) events)"
  by (simp add: day_items_def List.map_filter_def)

lemma day_items_events:
  "map fst (day_items parse events) = filter (\<lambda>ev. parsed_item parse ev \<noteq> None) events"
proof -
  have "fst (the (parsed_item parse ev)) = ev" if "parsed_item parse ev \<noteq> None" for ev
    using that parsed_item_fst [of parse ev] by auto
  then have "map (fst \<circ> (the \<circ> parsed_item parse)) (filter (\<lambda>ev. parsed_item parse ev \<noteq> None) events)
      = map id (filter (\<lambda>ev. parsed_item parse ev \<noteq> None) events)"
    by (intro map_cong) auto
  then show ?thesis by (simp add: day_items_eq)
qed

lemma day_items_member:
  "x \<in> set (day_items parse events) \<Longrightarrow> parsed_item parse (fst x) = Some x"
proof -
  assume "x \<in> set (day_items parse events)"
  then obtain ev where ev: "parsed_item parse ev = Some x"
    by (auto simp: day_items_eq)
  with parsed_item_fst [OF ev] show ?thesis by simp
qed

lemma sorted_items_member:
  "x \<in> set (sorted_items parse events) \<Longrightarrow> parsed_item parse (fst x) = Some x"
  by (simp add: sorted_items_def day_items_member)

lemma sorted_sorted_items: "sorted (map item_start (sorted_items parse events))"
  by (simp add: sorted_items_def)


lemma pack_items_inv: "pack_inv (sorted_items parse events) (pack_items (sorted_items parse events))"
  by (rule pack_inv_pack_items [OF sorted_sorted_items])

lemma layout_events:
  "pack_inv xs (lanes, layout) \<Longrightarrow> map fst layout = map fst xs"
  by (simp add: pack_inv_def)

lemma compute_lanes_events:
  "map fst (compute_lanes parse events) = map fst (sorted_items parse events)"
proof -
  obtain lanes layout where st: "pack_items (sorted_items parse events) = (lanes, layout)"
    by (cases "pack_items (sorted_items parse events)")
  have "map fst layout = map fst (sorted_items parse events)"
    using pack_items_inv [of parse events] st by (simp add: layout_events)
  moreover have "map fst (map (\<lambda>(ev, lane). (ev, lane, length lanes)) layout) = map fst layout"
    by (simp add: case_prod_unfold comp_def)
  ultimately show ?thesis by (simp add: compute_lanes_def st)
qed

lemma compute_lanes_nth:
  assumes st: "pack_items (sorted_items parse events) = (lanes, layout)"
    and k: "k < length (sorted_items parse events)"
  shows "compute_lanes parse events ! k = (fst (sorted_items parse events ! k), lane_of layout k, length lanes)"
proof -
  have inv: "pack_inv (sorted_items parse events) (lanes, layout)"
    using pack_items_inv [of parse events] st by simp
  then have m: "map fst layout = map fst (sorted_items parse events)" by (rule layout_events)
  then have len: "length layout = length (sorted_items parse events)"
    by (rule map_eq_imp_length_eq)
  have "fst (layout ! k) = fst (sorted_items parse events ! k)"
    using m k len by (metis nth_map)
  then show ?thesis using k len
    by (simp add: compute_lanes_def st lane_of_def case_prod_unfold)
qed

lemma length_compute_lanes: "length (compute_lanes parse events) = length (sorted_items parse events)"
  using compute_lanes_events [of parse events] by (rule map_eq_imp_length_eq)

lemma scenario_day_items:
  "day_items scenario_parse scenario_events =
     [(scenario_events ! 0, 32400000000, 36000000000),
      (scenario_events ! 1, 34200000000, 37800000000),
      (scenario_events ! 2, 36000000000, 39600000000)]"
  by (simp add: day_items_def scenario_events_def timed_event_def parsed_item_def falsy_def scenario_parse_def)

lemma scenario_sorted_items:
  "sorted_items scenario_parse scenario_events = day_items scenario_parse scenario_events"
  unfolding sorted_items_def
  by (rule sort_key_id_if_sorted) (simp add: scenario_day_items item_start_def)

lemma scenario_pack:
  "pack_items (sorted_items scenario_parse scenario_events) =
     ([39600000000, 37800000000], [(scenario_events ! 0, 0), (scenario_events ! 1, 1), (scenario_events ! 2, 0)])"
  by (simp add: scenario_sorted_items scenario_day_items pack_items_def place_def item_start_def item_end_def
      scan_lanes.simps)

lemma scenario_compute_lanes:
  "compute_lanes scenario_parse scenario_events =
     [(scenario_events ! 0, 0, 2), (scenario_events ! 1, 1, 2), (scenario_events ! 2, 0, 2)]"
  by (simp add: compute_lanes_def scenario_pack)

subsection \<open>The sweep line computes the depth\<close>












subsection \<open>Lane count and overlap depth\<close>



text \<open>
  The condition on the events is needed: an event of no duration in the middle of
  another is active at no instant and still gets a lane of its own.
\<close>

lemma no_duration_takes_a_lane:
  "lanes_opened scenario_parse pause_events = 2
   \<and> sweep_depth (day_items scenario_parse pause_events) = 1
   \<and> overlap_depth (day_items scenario_parse pause_events) = 1"
proof -
  have d: "day_items scenario_parse pause_events =
     [(pause_events ! 0, 32400000000, 36000000000), (pause_events ! 1, 34200000000, 34200000000)]"
    by (simp add: day_items_def pause_events_def timed_event_def parsed_item_def falsy_def
        scenario_parse_def)
  have s: "sorted_items scenario_parse pause_events = day_items scenario_parse pause_events"
    unfolding sorted_items_def
    by (rule sort_key_id_if_sorted) (simp add: d item_start_def)
  have a: "lanes_opened scenario_parse pause_events = 2"
    by (simp add: lanes_opened_def s d pack_items_def place_def item_start_def item_end_def
        scan_lanes.simps)
  have b: "sweep_depth (day_items scenario_parse pause_events) = 1"
    by (simp add: d sweep_depth_def boundary_points_def sweep_key_def item_start_def item_end_def)
  have c: "overlap_depth (day_items scenario_parse pause_events) = 1"
    by (simp add: d overlap_depth_def depth_at_def active_at_def item_start_def item_end_def)
  show ?thesis using a b c by simp
qed



subsection \<open>Events of one lane\<close>

lemma event_times_item:
  "parsed_item parse (fst x) = Some x \<Longrightarrow> event_times parse (fst x) = Some (item_start x, item_end x)"
  by (simp add: event_times_def item_start_def item_end_def)

text \<open>
  Claim C3. For every input, two different positions of the output that carry the same
  lane hold events the packer parsed, and the interval of one ends no later than the
  other starts.
\<close>

theorem same_lane_no_overlap:
  assumes j: "j < length (compute_lanes parse events)"
    and k: "k < length (compute_lanes parse events)"
    and ne: "j \<noteq> k"
    and same: "fst (snd (compute_lanes parse events ! j)) = fst (snd (compute_lanes parse events ! k))"
  shows "\<exists>sa ea sb eb.
           event_times parse (fst (compute_lanes parse events ! j)) = Some (sa, ea) \<and>
           event_times parse (fst (compute_lanes parse events ! k)) = Some (sb, eb) \<and>
           (ea \<le> sb \<or> eb \<le> sa)"
proof -
  let ?xs = "sorted_items parse events"
  obtain lanes layout where st: "pack_items ?xs = (lanes, layout)" by (cases "pack_items ?xs")
  have len: "length (compute_lanes parse events) = length ?xs" by (rule length_compute_lanes)
  have j': "j < length ?xs" and k': "k < length ?xs" using j k len by simp_all
  have oj: "compute_lanes parse events ! j = (fst (?xs ! j), lane_of layout j, length lanes)"
    using st j' by (rule compute_lanes_nth)
  have ok: "compute_lanes parse events ! k = (fst (?xs ! k), lane_of layout k, length lanes)"
    using st k' by (rule compute_lanes_nth)
  have "pack_inv ?xs (lanes, layout)" using pack_items_inv [of parse events] st by simp
  then have "valid_assignment ?xs (lane_of layout) (length lanes)" by (rule pack_inv_valid)
  with j' k' ne same oj ok
  have sep: "item_end (?xs ! j) \<le> item_start (?xs ! k) \<or> item_end (?xs ! k) \<le> item_start (?xs ! j)"
    by (simp add: valid_assignment_def)
  have tj: "event_times parse (fst (?xs ! j)) = Some (item_start (?xs ! j), item_end (?xs ! j))"
    using j' by (intro event_times_item sorted_items_member [of _ parse events]) simp
  have tk: "event_times parse (fst (?xs ! k)) = Some (item_start (?xs ! k), item_end (?xs ! k))"
    using k' by (intro event_times_item sorted_items_member [of _ parse events]) simp
  show ?thesis using sep tj tk oj ok by simp
qed

text \<open>In the day of three events, A and C share lane 0 and A ends when C starts.\<close>

theorem same_lane_no_overlap_witness:
  "fst (snd (compute_lanes scenario_parse scenario_events ! 0)) =
     fst (snd (compute_lanes scenario_parse scenario_events ! 2))
   \<and> (\<exists>sa ea sb eb.
        event_times scenario_parse (fst (compute_lanes scenario_parse scenario_events ! 0)) = Some (sa, ea) \<and>
        event_times scenario_parse (fst (compute_lanes scenario_parse scenario_events ! 2)) = Some (sb, eb) \<and>
        (ea \<le> sb \<or> eb \<le> sa))"
proof -
  have same: "fst (snd (compute_lanes scenario_parse scenario_events ! 0)) =
     fst (snd (compute_lanes scenario_parse scenario_events ! 2))"
    by (simp add: scenario_compute_lanes)
  have l0: "0 < length (compute_lanes scenario_parse scenario_events)"
    and l2: "2 < length (compute_lanes scenario_parse scenario_events)"
    by (simp_all add: scenario_compute_lanes)
  have ne: "(0::nat) \<noteq> 2" by simp
  from same_lane_no_overlap [OF l0 l2 ne same] same show ?thesis by blast
qed

subsection \<open>Every kept event, once\<close>

lemma parsed_item_Some_iff:
  "parsed_item parse ev \<noteq> None \<longleftrightarrow>
     (\<exists>s e. start_dateTime ev = Some s \<and> s \<noteq> [] \<and> end_dateTime ev = Some e \<and> e \<noteq> [] \<and>
            parse s \<noteq> None \<and> parse e \<noteq> None)"
  by (auto simp: parsed_item_def falsy_def split: option.splits)



subsection \<open>Order, stability and repetition\<close>

lemma starts_at_item:
  "parsed_item parse (fst x) = Some x \<Longrightarrow> starts_at parse t (fst x) = (item_start x = t)"
  by (simp add: starts_at_def event_times_def item_start_def)

lemma filter_starts_at_items:
  assumes "\<forall>x\<in>set xs. parsed_item parse (fst x) = Some x"
  shows "filter (starts_at parse t) (map fst xs) = map fst (filter (\<lambda>x. item_start x = t) xs)"
  using assms by (induction xs) (simp_all add: starts_at_item)

lemma starts_at_kept: "starts_at parse t ev \<Longrightarrow> parsed_item parse ev \<noteq> None"
  by (auto simp: starts_at_def event_times_def)

lemma output_stable:
  "filter (starts_at parse t) (map fst (compute_lanes parse events)) = filter (starts_at parse t) events"
proof -
  have s: "\<forall>x\<in>set (sorted_items parse events). parsed_item parse (fst x) = Some x"
    by (simp add: sorted_items_member)
  have d: "\<forall>x\<in>set (day_items parse events). parsed_item parse (fst x) = Some x"
    by (simp add: day_items_member)
  have "filter (starts_at parse t) (map fst (compute_lanes parse events))
      = map fst (filter (\<lambda>x. item_start x = t) (sorted_items parse events))"
    by (simp add: compute_lanes_events filter_starts_at_items [OF s])
  also have "\<dots> = map fst (filter (\<lambda>x. item_start x = t) (day_items parse events))"
    by (simp add: sorted_items_def sort_key_stable)
  also have "\<dots> = filter (starts_at parse t) (map fst (day_items parse events))"
    by (simp add: filter_starts_at_items [OF d])
  also have "\<dots> = filter (starts_at parse t) events"
  proof -
    have "(parsed_item parse ev \<noteq> None \<and> starts_at parse t ev) = starts_at parse t ev" for ev
      using starts_at_kept [of parse t ev] by blast
    then show ?thesis by (simp add: day_items_events del: not_None_eq)
  qed
  finally show ?thesis .
qed

lemma output_times:
  "map (event_times parse) (map fst (compute_lanes parse events))
     = map (\<lambda>x. Some (item_start x, item_end x)) (sorted_items parse events)"
proof -
  have "event_times parse (fst x) = Some (item_start x, item_end x)"
    if "x \<in> set (sorted_items parse events)" for x
    using that by (intro event_times_item sorted_items_member)
  then show ?thesis by (simp add: compute_lanes_events)
qed

lemma day_items_of_items:
  assumes "\<forall>x\<in>set xs. parsed_item parse (fst x) = Some x"
  shows "day_items parse (map fst xs) = xs"
  using assms by (induction xs) (simp_all add: day_items_def)

lemma sorted_items_idem:
  "sorted_items parse (map fst (sorted_items parse events)) = sorted_items parse events"
proof -
  have "day_items parse (map fst (sorted_items parse events)) = sorted_items parse events"
    by (rule day_items_of_items) (simp add: sorted_items_member)
  then have "sorted_items parse (map fst (sorted_items parse events))
      = sort_key item_start (sorted_items parse events)"
    by (simp add: sorted_items_def)
  also have "\<dots> = sorted_items parse events"
    by (rule sort_key_id_if_sorted) (rule sorted_sorted_items)
  finally show ?thesis .
qed

lemma compute_lanes_idem:
  "compute_lanes parse (map fst (compute_lanes parse events)) = compute_lanes parse events"
proof -
  have "sorted_items parse (map fst (compute_lanes parse events)) = sorted_items parse events"
    by (simp only: compute_lanes_events sorted_items_idem)
  then show ?thesis by (simp only: compute_lanes_def)
qed

lemma place_times:
  assumes "snd x = snd y" "fst st = fst st'" "map snd (snd st) = map snd (snd st')"
  shows "fst (place x st) = fst (place y st') \<and> map snd (snd (place x st)) = map snd (snd (place y st'))"
proof -
  obtain lanes layout where st: "st = (lanes, layout)" by (cases st)
  obtain lanes' layout' where st': "st' = (lanes', layout')" by (cases st')
  have t: "item_start x = item_start y" "item_end x = item_end y"
    using assms(1) by (simp_all add: item_start_def item_end_def)
  show ?thesis using assms(2,3) t
    by (simp add: place_def st st' split: option.splits)
qed

lemma fold_place_times:
  assumes "map snd xs = map snd ys" "fst st = fst st'" "map snd (snd st) = map snd (snd st')"
  shows "fst (fold place xs st) = fst (fold place ys st') \<and>
         map snd (snd (fold place xs st)) = map snd (snd (fold place ys st'))"
  using assms
proof (induction xs arbitrary: ys st st')
  case Nil
  then show ?case by simp
next
  case (Cons x xs)
  from Cons.prems(1) obtain y ys' where ys: "ys = y # ys'" "snd x = snd y" "map snd xs = map snd ys'"
    by (cases ys) auto
  from place_times [OF ys(2) Cons.prems(2,3)]
  have "fst (place x st) = fst (place y st')" "map snd (snd (place x st)) = map snd (snd (place y st'))"
    by simp_all
  from Cons.IH [OF ys(3) this] show ?case by (simp add: ys(1))
qed

lemma insort_key_times:
  "map snd (insort_key item_start a xs) = insort_key fst (snd a) (map snd xs)"
  by (induction xs) (simp_all add: item_start_def)

lemma sort_key_times: "map snd (sort_key item_start xs) = sort_key fst (map snd xs)"
  by (induction xs) (simp_all add: insort_key_times)

lemma day_items_times:
  "map snd (day_items parse events) = List.map_filter (event_times parse) events"
  by (induction events) (simp_all add: day_items_def event_times_def split: option.splits)

lemma map_filter_map: "List.map_filter f xs = List.map_filter id (map f xs)"
  by (induction xs) (simp_all split: option.splits)

lemma compute_lanes_times_only:
  assumes "map (event_times parse) events = map (event_times parse) events'"
  shows "map snd (compute_lanes parse events) = map snd (compute_lanes parse events')"
proof -
  let ?xs = "sorted_items parse events" and ?ys = "sorted_items parse events'"
  have "map snd (day_items parse events) = map snd (day_items parse events')"
    using assms by (simp add: day_items_times map_filter_map [of "event_times parse"])
  then have m: "map snd ?xs = map snd ?ys"
    by (simp add: sorted_items_def sort_key_times)
  obtain lanes layout where st: "pack_items ?xs = (lanes, layout)" by (cases "pack_items ?xs")
  obtain lanes' layout' where st': "pack_items ?ys = (lanes', layout')" by (cases "pack_items ?ys")
  from fold_place_times [OF m, of "([], [])" "([], [])"] st st'
  have e: "lanes = lanes'" "map snd layout = map snd layout'"
    by (simp_all add: pack_items_def)
  have "map snd (map (\<lambda>(ev, lane). (ev, lane, length lanes)) layout)
      = map (\<lambda>lane. (lane, length lanes)) (map snd layout)"
    by (simp add: case_prod_unfold comp_def)
  moreover have "map snd (map (\<lambda>(ev, lane). (ev, lane, length lanes')) layout')
      = map (\<lambda>lane. (lane, length lanes')) (map snd layout')"
    by (simp add: case_prod_unfold comp_def)
  ultimately show ?thesis using e by (simp add: compute_lanes_def st st')
qed

text \<open>
  Claim C9. The output lists the kept events by ascending start; events with the same
  start keep the order of the input; packing the events of an output again gives the
  same output; and the lanes depend on the timestamps alone, not on titles or
  identifiers.
\<close>

theorem packing_stable_idempotent:
  "map (event_times parse) (map fst (compute_lanes parse events))
      = map (\<lambda>x. Some (item_start x, item_end x)) (sorted_items parse events)
   \<and> sorted (map item_start (sorted_items parse events))
   \<and> (\<forall>t. filter (starts_at parse t) (map fst (compute_lanes parse events))
           = filter (starts_at parse t) events)
   \<and> compute_lanes parse (map fst (compute_lanes parse events)) = compute_lanes parse events
   \<and> (map (event_times parse) events = map (event_times parse) events' \<longrightarrow>
        map snd (compute_lanes parse events) = map snd (compute_lanes parse events'))"
  using output_times [of parse events] sorted_sorted_items [of parse events]
    output_stable [of parse _ events] compute_lanes_idem [of parse events]
    compute_lanes_times_only [of parse events events']
  by blast

lemma tied_compute_lanes:
  "compute_lanes scenario_parse tied_events =
     [(tied_events ! 2, 0, 2), (tied_events ! 0, 0, 2), (tied_events ! 1, 1, 2)]"
  by (simp add: compute_lanes_def sorted_items_def day_items_def tied_events_def timed_event_def
      parsed_item_def falsy_def scenario_parse_def pack_items_def place_def item_start_def item_end_def
      scan_lanes.simps)

lemma tied_times:
  "map (event_times scenario_parse) tied_events = map (event_times scenario_parse) renamed_events"
  by (simp add: tied_events_def renamed_events_def timed_event_def event_times_def parsed_item_def
      falsy_def scenario_parse_def)

text \<open>
  Zebra and apple start together and stay in the order given; renaming the events
  changes no lane.
\<close>

theorem packing_stable_idempotent_witness:
  "map (event_times scenario_parse) tied_events = map (event_times scenario_parse) renamed_events
   \<and> map snd (compute_lanes scenario_parse renamed_events) = [(0, 2), (0, 2), (1, 2)]
   \<and> map (ev_id \<circ> fst) (compute_lanes scenario_parse tied_events) = [''mango'', ''zebra'', ''apple'']
   \<and> compute_lanes scenario_parse (map fst (compute_lanes scenario_parse tied_events))
        = compute_lanes scenario_parse tied_events"
proof -
  from packing_stable_idempotent [of scenario_parse tied_events renamed_events] tied_times
  have "map snd (compute_lanes scenario_parse tied_events) = map snd (compute_lanes scenario_parse renamed_events)"
    and "compute_lanes scenario_parse (map fst (compute_lanes scenario_parse tied_events))
        = compute_lanes scenario_parse tied_events"
    by blast+
  moreover have "map (ev_id \<circ> fst) (compute_lanes scenario_parse tied_events) = [''mango'', ''zebra'', ''apple'']"
    by (simp add: tied_compute_lanes) (simp add: tied_events_def timed_event_def)
  moreover have "map snd (compute_lanes scenario_parse tied_events) = [(0, 2), (0, 2), (1, 2)]"
    by (simp add: tied_compute_lanes)
  ultimately show ?thesis using tied_times by simp
qed

subsection \<open>Events that touch\<close>

lemma scan_lanes_fits:
  assumes "i < length lanes" "lanes ! i \<le> s"
  shows "\<exists>j\<le>i. scan_lanes lanes s 0 = Some j"
proof (cases "scan_lanes lanes s 0")
  case None
  from scan_lanes_NoneD [OF None, of i] assms show ?thesis by simp
next
  case (Some j)
  from scan_lanes_SomeD [OF Some] assms have "j \<le> i"
    by (metis le0 not_le_imp_less not_less)
  with Some show ?thesis by simp
qed

lemma pair_day_items:
  assumes a: "event_times parse a = Some (sa, ea)" and b: "event_times parse b = Some (sb, eb)"
  shows "day_items parse [a, b] = [(a, sa, ea), (b, sb, eb)]"
proof -
  from a obtain x where x: "parsed_item parse a = Some x" "snd x = (sa, ea)"
    by (auto simp: event_times_def)
  from b obtain y where y: "parsed_item parse b = Some y" "snd y = (sb, eb)"
    by (auto simp: event_times_def)
  from parsed_item_fst [OF x(1)] x(2) have "x = (a, sa, ea)" by (cases x) simp
  moreover from parsed_item_fst [OF y(1)] y(2) have "y = (b, sb, eb)" by (cases y) simp
  ultimately show ?thesis using x(1) y(1) by (simp add: day_items_def)
qed

lemma back_to_back_pair:
  assumes a: "event_times parse a = Some (sa, ea)" and b: "event_times parse b = Some (ea, eb)"
    and le: "sa \<le> ea"
  shows "compute_lanes parse [a, b] = [(a, 0, 1), (b, 0, 1)]"
proof -
  have "sorted_items parse [a, b] = [(a, sa, ea), (b, ea, eb)]"
    using le by (simp add: sorted_items_def pair_day_items [OF a b] item_start_def)
  then show ?thesis
    by (simp add: compute_lanes_def pack_items_def place_def item_start_def item_end_def
        scan_lanes.simps)
qed

text \<open>
  Claim C8. An event that starts at the recorded end of a lane is placed in that lane or
  an earlier one, and opens none; two events of which the second starts when the first
  ends, of any duration including none, share lane 0; and the day of A, B and C is packed
  as A in lane 0, B in lane 1, C in lane 0, with two lanes.
\<close>

theorem adjacent_events_share_lane:
  "(i < length lanes \<and> lanes ! i = item_start x \<longrightarrow>
      (\<exists>j\<le>i. place x (lanes, layout) = (lanes[j := item_end x], layout @ [(fst x, j)])))
   \<and> (event_times parse a = Some (sa, ea) \<and> event_times parse b = Some (ea, eb) \<and> sa \<le> ea \<longrightarrow>
        compute_lanes parse [a, b] = [(a, 0, 1), (b, 0, 1)])
   \<and> compute_lanes scenario_parse
        [timed_event ''A'' ''2024-03-04T09:00:00Z'' ''2024-03-04T10:00:00Z'',
         timed_event ''B'' ''2024-03-04T09:30:00Z'' ''2024-03-04T10:30:00Z'',
         timed_event ''C'' ''2024-03-04T10:00:00Z'' ''2024-03-04T11:00:00Z'']
      = [(timed_event ''A'' ''2024-03-04T09:00:00Z'' ''2024-03-04T10:00:00Z'', 0, 2),
         (timed_event ''B'' ''2024-03-04T09:30:00Z'' ''2024-03-04T10:30:00Z'', 1, 2),
         (timed_event ''C'' ''2024-03-04T10:00:00Z'' ''2024-03-04T11:00:00Z'', 0, 2)]"
proof -
  have p1: "\<exists>j\<le>i. place x (lanes, layout) = (lanes[j := item_end x], layout @ [(fst x, j)])"
    if "i < length lanes" "lanes ! i = item_start x"
  proof -
    from scan_lanes_fits [of i lanes "item_start x"] that
    obtain j where "j \<le> i" "scan_lanes lanes (item_start x) 0 = Some j" by auto
    then show ?thesis by (auto simp: place_def)
  qed
  have p3: "compute_lanes scenario_parse
        [timed_event ''A'' ''2024-03-04T09:00:00Z'' ''2024-03-04T10:00:00Z'',
         timed_event ''B'' ''2024-03-04T09:30:00Z'' ''2024-03-04T10:30:00Z'',
         timed_event ''C'' ''2024-03-04T10:00:00Z'' ''2024-03-04T11:00:00Z'']
      = [(timed_event ''A'' ''2024-03-04T09:00:00Z'' ''2024-03-04T10:00:00Z'', 0, 2),
         (timed_event ''B'' ''2024-03-04T09:30:00Z'' ''2024-03-04T10:30:00Z'', 1, 2),
         (timed_event ''C'' ''2024-03-04T10:00:00Z'' ''2024-03-04T11:00:00Z'', 0, 2)]"
    using scenario_compute_lanes by (simp add: scenario_events_def)
  show ?thesis using p1 back_to_back_pair [of parse a sa ea b eb] p3 by blast
qed

text \<open>
  An event of no duration at 10:00 after one that ends at 10:00; and a lane that ended at
  10:00 taken at 10:00 while lane 0 is busy until 10:30.
\<close>

theorem adjacent_events_share_lane_witness:
  "event_times scenario_parse (instant_events ! 0) = Some (32400000000, 36000000000)
   \<and> event_times scenario_parse (instant_events ! 1) = Some (36000000000, 36000000000)
   \<and> compute_lanes scenario_parse instant_events = [(instant_events ! 0, 0, 1), (instant_events ! 1, 0, 1)]
   \<and> place (instant_events ! 1, 36000000000, 36000000000) ([37800000000, 36000000000], [])
        = ([37800000000, 36000000000], [(instant_events ! 1, 1)])"
proof -
  have t0: "event_times scenario_parse (instant_events ! 0) = Some (32400000000, 36000000000)"
    and t1: "event_times scenario_parse (instant_events ! 1) = Some (36000000000, 36000000000)"
    by (simp_all add: instant_events_def timed_event_def event_times_def parsed_item_def falsy_def
        scenario_parse_def)
  have l: "instant_events = [instant_events ! 0, instant_events ! 1]"
    by (simp add: instant_events_def)
  have "compute_lanes scenario_parse [instant_events ! 0, instant_events ! 1]
      = [(instant_events ! 0, 0, 1), (instant_events ! 1, 0, 1)]"
    using adjacent_events_share_lane [of 0 "[]" "(instant_events ! 0, 0, 0)" "[]" scenario_parse
        "instant_events ! 0" 32400000000 36000000000 "instant_events ! 1" 36000000000] t0 t1
    by simp
  then have c: "compute_lanes scenario_parse instant_events
      = [(instant_events ! 0, 0, 1), (instant_events ! 1, 0, 1)]"
    using l by simp
  have p: "place (instant_events ! 1, 36000000000, 36000000000) ([37800000000, 36000000000], [])
        = ([37800000000, 36000000000], [(instant_events ! 1, 1)])"
    using adjacent_events_share_lane [of 1 "[37800000000, 36000000000]"
        "(instant_events ! 1, 36000000000, 36000000000)" "[]" scenario_parse
        "instant_events ! 0" 32400000000 36000000000 "instant_events ! 1" 36000000000]
    by (auto simp: item_start_def item_end_def less_Suc_eq_le le_Suc_eq scan_lanes.simps place_def)
  show ?thesis using t0 t1 c p by simp
qed




section \<open>Properties of the re-plan coordinator\<close>

subsection \<open>The flag and the workers\<close>


lemma check_cases:
  "check_and_replan now capacity st = (out, st') \<Longrightarrow>
     (\<exists>reason. out = Accepted reason \<and> \<not> is_replanning st \<and>
        st' = st\<lparr>is_replanning := True, last_replan_time := Some now\<rparr>)
     \<or> (\<not> is_accepted out \<and> st' = st)"
  by (auto simp: check_and_replan_def is_accepted_def Let_def split: if_splits option.splits)

lemma check_flag:
  assumes "check_and_replan now capacity st = (out, st')"
  shows "is_replanning st' = (is_replanning st \<or> is_accepted out)"
    and "is_accepted out \<Longrightarrow> \<not> is_replanning st"
    and "length (dispatched (Some out)) = (if is_accepted out then 1 else 0)"
  using check_cases [OF assms]
  by (auto simp: is_accepted_def dispatched_def split: outcome.splits)

lemma refresh_flag:
  assumes "refresh_events skip env st = (out, st')"
  shows "is_replanning st' = (is_replanning st \<or> dispatched out \<noteq> [])"
    and "dispatched out \<noteq> [] \<Longrightarrow> \<not> is_replanning st \<and> \<not> skip"
    and "length (dispatched out) \<le> 1"
proof -
  show "length (dispatched out) \<le> 1"
    by (simp add: dispatched_def split: option.splits outcome.splits)
  show "is_replanning st' = (is_replanning st \<or> dispatched out \<noteq> [])"
  proof (cases "env_listed env")
    case None
    then show ?thesis using assms by (auto simp: refresh_events_def dispatched_def)
  next
    case (Some items)
    let ?st1 = "st\<lparr>app_events := items\<rparr>"
    show ?thesis
    proof (cases "env_rendered env \<and> replan_on_event_change ?st1 \<and> \<not> skip \<and> \<not> is_replanning ?st1")
      case False
      then show ?thesis using assms Some
        by (auto simp: refresh_events_def dispatched_def Let_def split: if_splits)
    next
      case True
      obtain o1 s1 where c: "check_and_replan (env_now env) (env_capacity env) ?st1 = (o1, s1)"
        by (cases "check_and_replan (env_now env) (env_capacity env) ?st1")
      with True Some assms have e: "out = Some o1" "st' = s1"
        by (auto simp: refresh_events_def Let_def)
      from check_flag(1) [OF c] have "is_replanning s1 = (is_replanning st \<or> is_accepted o1)" by simp
      moreover have "is_accepted o1 = (dispatched (Some o1) \<noteq> [])"
        by (simp add: is_accepted_def dispatched_def split: outcome.splits)
      ultimately show ?thesis using e by simp
    qed
  qed
  show "\<not> is_replanning st \<and> \<not> skip" if d: "dispatched out \<noteq> []"
  proof -
    from d obtain o1 where o: "out = Some o1" by (cases out) (auto simp: dispatched_def)
    with assms show ?thesis
      by (auto simp: refresh_events_def Let_def split: option.splits if_splits prod.splits)
  qed
qed

lemma refresh_skip:
  "refresh_events True env st = (None, case env_listed env of None \<Rightarrow> st | Some items \<Rightarrow> st\<lparr>app_events := items\<rparr>)"
  by (simp add: refresh_events_def Let_def split: option.splits)

lemma pending_clears_replan_async: "length (filter (\<lambda>cb. cb = ClearReplanning) (replan_async result)) = 1"
  by (cases result) simp_all

lemma no_check_refresh_posted: "Refresh False \<notin> set (replan_async result)"
  by (cases result) simp_all

lemma exclusive_refresh:
  assumes ex: "exclusive s" and r: "refresh_events skip env (app_of s) = (out, st)"
  shows "exclusive (s\<lparr>app_of := st, workers := workers s @ dispatched out\<rparr>)"
proof (cases "dispatched out = []")
  case True
  with refresh_flag(1) [OF r] ex show ?thesis
    by (simp add: exclusive_def pending_clears_def)
next
  case False
  from refresh_flag(2) [OF r False] have idle: "\<not> is_replanning (app_of s)" by simp
  from refresh_flag(3) [OF r] False have one: "length (dispatched out) = 1"
    by (cases "dispatched out") auto
  from refresh_flag(1) [OF r] False have "is_replanning st" by simp
  with ex idle one show ?thesis
    by (simp add: exclusive_def pending_clears_def)
qed

lemma exclusive_check:
  assumes ex: "exclusive s" and r: "check_and_replan now capacity (app_of s) = (out, st)"
  shows "exclusive (s\<lparr>app_of := st, workers := workers s @ dispatched (Some out)\<rparr>)"
proof (cases "is_accepted out")
  case False
  with check_flag(1,3) [OF r] ex show ?thesis
    by (simp add: exclusive_def pending_clears_def)
next
  case True
  with check_flag [OF r] ex show ?thesis
    by (simp add: exclusive_def pending_clears_def)
qed

lemma exclusive_step: "exclusive s \<Longrightarrow> exclusive (step e s)"
proof (cases e)
  case (Refreshed skip env)
  assume ex: "exclusive s"
  obtain out st where r: "refresh_events skip env (app_of s) = (out, st)"
    by (cases "refresh_events skip env (app_of s)")
  from exclusive_refresh [OF ex r] show ?thesis by (simp add: Refreshed r)
next
  case (Checked now capacity)
  assume ex: "exclusive s"
  obtain out st where r: "check_and_replan now capacity (app_of s) = (out, st)"
    by (cases "check_and_replan now capacity (app_of s)")
  from exclusive_check [OF ex r] show ?thesis by (simp add: Checked r)
next
  case (WorkerReturns result)
  assume ex: "exclusive s"
  show ?thesis
  proof (cases "workers s")
    case Nil
    then show ?thesis using ex by (simp add: WorkerReturns)
  next
    case (Cons reason rest)
    with ex show ?thesis
      by (auto simp: WorkerReturns exclusive_def pending_clears_def pending_clears_replan_async
          no_check_refresh_posted split: if_splits)
  qed
next
  case (RunCallback env)
  assume ex: "exclusive s"
  show ?thesis
  proof (cases "ui_queue s")
    case Nil
    then show ?thesis using ex by (simp add: RunCallback)
  next
    case (Cons cb rest)
    let ?s1 = "s\<lparr>ui_queue := rest\<rparr>"
    show ?thesis
    proof (cases cb)
      case ClearReplanning
      with ex Cons show ?thesis
        by (auto simp: RunCallback exclusive_def pending_clears_def run_callback_def split: if_splits)
    next
      case (ShowInfo msg)
      with ex Cons show ?thesis
        by (auto simp: RunCallback exclusive_def pending_clears_def run_callback_def split: if_splits)
    next
      case (PrintMessage msg)
      with ex Cons show ?thesis
        by (auto simp: RunCallback exclusive_def pending_clears_def run_callback_def split: if_splits)
    next
      case (Refresh skip)
      have ex1: "exclusive ?s1" using ex Cons Refresh
        by (auto simp: exclusive_def pending_clears_def split: if_splits)
      obtain out st where r: "refresh_events skip env (app_of ?s1) = (out, st)"
        by (cases "refresh_events skip env (app_of ?s1)")
      from exclusive_refresh [OF ex1 r] show ?thesis
        using r by (simp add: RunCallback Cons Refresh run_callback_def)
    qed
  qed
next
  case (TasksChanged ts)
  assume "exclusive s"
  then show ?thesis by (simp add: TasksChanged exclusive_def pending_clears_def)
next
  case (ReplanOnChangeSet b)
  assume "exclusive s"
  then show ?thesis by (simp add: ReplanOnChangeSet exclusive_def pending_clears_def)
qed

lemma exclusive_fold: "exclusive s \<Longrightarrow> exclusive (fold step evs s)"
  by (induction evs arbitrary: s) (simp_all add: exclusive_step)

lemma exclusive_init: "exclusive init_system"
  by (simp add: exclusive_def init_system_def init_app_def pending_clears_def)

lemma exclusive_run: "exclusive (run evs init_system)"
  unfolding run_def by (rule exclusive_fold [OF exclusive_init])





lemma has_task_events_planned: "has_task_events planned_app"
  by (simp add: has_task_events_def planned_app_def init_app_def task_event_def)




subsection \<open>Completion and the recorded time\<close>

lemma failed_run_state:
  "run failed_run planned_system =
     \<lparr>app_of = planned_app\<lparr>last_replan_time := Some 0\<rparr>, workers = [], ui_queue = []\<rparr>"
  using has_task_events_planned
  by (simp add: run_def failed_run_def planned_system_def init_system_def check_and_replan_def
      planned_app_def init_app_def in_cooldown_def critical_of_def Let_def dispatched_def
      run_callback_def)

text \<open>
  Claim C4 as stated fails. The worker of a re-plan accepted at second 0 fails and the
  flag is cleared at second 7: the recorded time is still second 0, not second 7, and a
  call one second after the failure is accepted.
\<close>

theorem completion_time_not_recorded:
  "\<not> is_replanning (app_of (run failed_run planned_system))
   \<and> last_replan_time (app_of (run failed_run planned_system)) = Some 0
   \<and> last_replan_time (app_of (run failed_run planned_system)) \<noteq> Some 7000000
   \<and> fst (check_and_replan 8000000 (Some []) (app_of (run failed_run planned_system)))
        = Accepted ''Schedule change - shuffling tasks''"
  using has_task_events_planned
  by (simp add: failed_run_state check_and_replan_def in_cooldown_def critical_of_def Let_def
      planned_app_def init_app_def has_task_events_def)

lemma run_callbacks_replan_async:
  assumes q: "ui_queue s = replan_async result"
    and s': "s' = fold step (map RunCallback (replicate (length (replan_async result)) env)) s"
  shows "\<not> is_replanning (app_of s') \<and> last_replan_time (app_of s') = last_replan_time (app_of s)
         \<and> workers s' = workers s \<and> ui_queue s' = []"
proof (cases result)
  case (Success c1 c2)
  then show ?thesis using q unfolding s'
    by (simp add: run_callback_def refresh_skip dispatched_def numeral_3_eq_3 split: option.splits)
next
  case NoTasks
  then show ?thesis using q unfolding s' by (simp add: run_callback_def)
next
  case (OtherStatus m)
  then show ?thesis using q unfolding s' by (simp add: run_callback_def numeral_2_eq_2)
next
  case (Raised m)
  then show ?thesis using q unfolding s' by (simp add: run_callback_def)
qed

lemma completion_state:
  assumes w: "workers s = reason # rest" and q: "ui_queue s = []"
  shows "\<not> is_replanning (app_of (run (completion result env) s))
      \<and> last_replan_time (app_of (run (completion result env) s)) = last_replan_time (app_of s)
      \<and> workers (run (completion result env) s) = rest
      \<and> ui_queue (run (completion result env) s) = []"
proof -
  let ?s1 = "s\<lparr>workers := rest, ui_queue := replan_async result\<rparr>"
  have s1: "step (WorkerReturns result) s = ?s1" using w q by simp
  have "ui_queue ?s1 = replan_async result" by simp
  from run_callbacks_replan_async [OF this refl, of env] show ?thesis
    by (simp add: run_def completion_def s1 del: step.simps)
qed

text \<open>
  Claim C4, amended. When the worker returns, with success, with nothing done or with an
  exception (which it catches), and its callbacks have run, the flag is cleared and the
  worker is gone; no time is recorded then. The time is recorded when a call is accepted,
  and the cooldown is measured from it, whatever the end of the attempt.
\<close>

theorem completion_returns_to_idle:
  "(workers s = reason # rest \<and> ui_queue s = [] \<longrightarrow>
      \<not> is_replanning (app_of (run (completion result env) s))
      \<and> last_replan_time (app_of (run (completion result env) s)) = last_replan_time (app_of s)
      \<and> workers (run (completion result env) s) = rest
      \<and> ui_queue (run (completion result env) s) = [])
   \<and> (is_accepted (fst (check_and_replan now capacity st)) \<longrightarrow>
        is_replanning (snd (check_and_replan now capacity st))
        \<and> last_replan_time (snd (check_and_replan now capacity st)) = Some now)
   \<and> (\<not> is_replanning st \<and> last_replan_time st = Some t \<longrightarrow>
        (fst (check_and_replan now capacity st) = Cooldown) = (now - t < replan_cooldown st * 1000000))"
proof -
  have a: "\<not> is_replanning (app_of (run (completion result env) s))
      \<and> last_replan_time (app_of (run (completion result env) s)) = last_replan_time (app_of s)
      \<and> workers (run (completion result env) s) = rest
      \<and> ui_queue (run (completion result env) s) = []"
    if "workers s = reason # rest" "ui_queue s = []"
    using completion_state [OF that, of result env] .
  have b: "is_replanning (snd (check_and_replan now capacity st))
        \<and> last_replan_time (snd (check_and_replan now capacity st)) = Some now"
    if "is_accepted (fst (check_and_replan now capacity st))"
    using that check_cases [of now capacity st "fst (check_and_replan now capacity st)"
        "snd (check_and_replan now capacity st)"]
    by auto
  have c: "(fst (check_and_replan now capacity st) = Cooldown) = (now - t < replan_cooldown st * 1000000)"
    if "\<not> is_replanning st" "last_replan_time st = Some t"
    using that by (auto simp: check_and_replan_def in_cooldown_def Let_def split: option.splits)
  show ?thesis using a b c by blast
qed

lemma running_system_state:
  "running_system = \<lparr>app_of = planned_app\<lparr>is_replanning := True, last_replan_time := Some 0\<rparr>,
      workers = [''Critical capacity overload detected''], ui_queue = []\<rparr>"
  using has_task_events_planned
  by (simp add: running_system_def planned_system_def init_system_def check_and_replan_def
      planned_app_def init_app_def in_cooldown_def critical_of_def critical_warning_def Let_def
      dispatched_def)

text \<open>
  The worker of the re-plan accepted at second 0 fails: the flag is cleared, the time
  stays at second 0, and a call at second 3 is in the cooldown.
\<close>

theorem completion_returns_to_idle_witness:
  "workers running_system = [''Critical capacity overload detected'']
   \<and> ui_queue running_system = []
   \<and> is_replanning (app_of running_system)
   \<and> \<not> is_replanning (app_of (run (completion (Raised ''backend unavailable'') (overloaded_env 7000000)) running_system))
   \<and> last_replan_time (app_of (run (completion (Raised ''backend unavailable'') (overloaded_env 7000000)) running_system)) = Some 0
   \<and> workers (run (completion (Raised ''backend unavailable'') (overloaded_env 7000000)) running_system) = []
   \<and> fst (check_and_replan 3000000 (Some [critical_warning])
        (planned_app\<lparr>last_replan_time := Some 0\<rparr>)) = Cooldown"
proof -
  have w: "workers running_system = [''Critical capacity overload detected'']"
    and q: "ui_queue running_system = []"
    and r: "is_replanning (app_of running_system)"
    and l: "last_replan_time (app_of running_system) = Some 0"
    by (simp_all add: running_system_state)
  have i: "\<not> is_replanning (planned_app\<lparr>last_replan_time := Some 0\<rparr>)"
    and t: "last_replan_time (planned_app\<lparr>last_replan_time := Some 0\<rparr>) = Some 0"
    and c: "replan_cooldown (planned_app\<lparr>last_replan_time := Some 0\<rparr>) = 5"
    by (simp_all add: planned_app_def init_app_def)
  from completion_returns_to_idle [of running_system "''Critical capacity overload detected''" "[]"
      "Raised ''backend unavailable''" "overloaded_env 7000000" 3000000 "Some [critical_warning]"
      "planned_app\<lparr>last_replan_time := Some 0\<rparr>" 0] w q l i t c
  show ?thesis using r by simp
qed

subsection \<open>The cooldown, and a calendar with nothing to move\<close>



text \<open>
  Claim C6. With no event tagged \<open>[Task]\<close> and no scheduled task, every call is turned
  away with the state unchanged, and the result does not depend on the capacity
  analysis: past the flag and the cooldown tests, it is the return for nothing to
  re-plan.
\<close>

theorem nothing_to_replan_returns_early:
  "(\<not> has_task_events st \<and> \<not> has_scheduled_tasks st \<longrightarrow>
      check_and_replan now capacity st =
        (if is_replanning st then AlreadyRunning
         else if in_cooldown now st then Cooldown else NothingToReplan, st))
   \<and> (app_events st = [] \<and> scheduler_tasks st = [] \<and> \<not> is_replanning st \<and> \<not> in_cooldown now st \<longrightarrow>
        check_and_replan now capacity st = (NothingToReplan, st))"
proof -
  have a: "check_and_replan now capacity st =
        (if is_replanning st then AlreadyRunning
         else if in_cooldown now st then Cooldown else NothingToReplan, st)"
    if "\<not> has_task_events st" "\<not> has_scheduled_tasks st"
    using that by (simp add: check_and_replan_def)
  have b: "check_and_replan now capacity st = (NothingToReplan, st)"
    if "app_events st = []" "scheduler_tasks st = []" "\<not> is_replanning st" "\<not> in_cooldown now st"
    using that by (simp add: check_and_replan_def has_task_events_def has_scheduled_tasks_def)
  show ?thesis using a b by blast
qed

text \<open>A critical warning, or a failing analysis, over a calendar with nothing to move.\<close>

theorem nothing_to_replan_returns_early_witness:
  "check_and_replan 0 (Some [critical_warning]) fixed_app = (NothingToReplan, fixed_app)
   \<and> check_and_replan 0 None fixed_app = (NothingToReplan, fixed_app)
   \<and> check_and_replan 0 (Some [critical_warning]) init_app = (NothingToReplan, init_app)"
proof -
  have h: "\<not> has_task_events fixed_app" "\<not> has_scheduled_tasks fixed_app"
    "\<not> is_replanning fixed_app" "\<not> in_cooldown 0 fixed_app"
    by (simp_all add: fixed_app_def init_app_def has_task_events_def has_scheduled_tasks_def
        meeting_event_def unscheduled_task_def in_cooldown_def)
  have i: "app_events init_app = []" "scheduler_tasks init_app = []"
    "\<not> is_replanning init_app" "\<not> in_cooldown 0 init_app"
    by (simp_all add: init_app_def in_cooldown_def)
  from nothing_to_replan_returns_early [of fixed_app 0 "Some [critical_warning]"] h
    nothing_to_replan_returns_early [of fixed_app 0 None] 
    nothing_to_replan_returns_early [of init_app 0 "Some [critical_warning]"] i
  show ?thesis by simp
qed

subsection \<open>The refresh after a re-plan\<close>

lemma run_callback_no_check:
  assumes "Refresh False \<notin> set (ui_queue s)"
  shows "workers (step (RunCallback env) s) = workers s
       \<and> last_replan_time (app_of (step (RunCallback env) s)) = last_replan_time (app_of s)
       \<and> Refresh False \<notin> set (ui_queue (step (RunCallback env) s))"
proof (cases "ui_queue s")
  case Nil
  then show ?thesis by simp
next
  case (Cons cb rest)
  with assms have "cb \<noteq> Refresh False" "Refresh False \<notin> set rest" by auto
  then show ?thesis using Cons
    by (cases cb) (auto simp: run_callback_def refresh_skip dispatched_def split: option.splits)
qed

lemma run_callbacks_no_check:
  "Refresh False \<notin> set (ui_queue s) \<Longrightarrow>
     workers (fold step (map RunCallback envs) s) = workers s
     \<and> last_replan_time (app_of (fold step (map RunCallback envs) s)) = last_replan_time (app_of s)"
proof (induction envs arbitrary: s)
  case Nil
  then show ?case by simp
next
  case (Cons env envs)
  from run_callback_no_check [OF Cons.prems, of env] Cons.IH [of "step (RunCallback env) s"]
  show ?case by (simp del: step.simps)
qed

text \<open>
  Claim C7. The worker never posts a refresh that asks for the check; in no reachable
  state does such a refresh wait; a refresh that skips the check does not call it,
  starts no worker and leaves the flag and the recorded time as they are; and after a
  worker returns, running its callbacks, and any further ones, starts no worker.
\<close>

theorem replan_refresh_skips_check:
  "Refresh False \<notin> set (replan_async result)
   \<and> refresh_events True env st
       = (None, case env_listed env of None \<Rightarrow> st | Some items \<Rightarrow> st\<lparr>app_events := items\<rparr>)
   \<and> workers (step (Refreshed True env) s) = workers s
   \<and> is_replanning (app_of (step (Refreshed True env) s)) = is_replanning (app_of s)
   \<and> last_replan_time (app_of (step (Refreshed True env) s)) = last_replan_time (app_of s)
   \<and> Refresh False \<notin> set (ui_queue (run evs init_system))
   \<and> (workers s = [reason] \<and> ui_queue s = [] \<longrightarrow>
        workers (run (WorkerReturns result # map RunCallback envs) s) = []
        \<and> last_replan_time (app_of (run (WorkerReturns result # map RunCallback envs) s))
            = last_replan_time (app_of s))"
proof -
  have a: "workers (step (Refreshed True env) s) = workers s
      \<and> is_replanning (app_of (step (Refreshed True env) s)) = is_replanning (app_of s)
      \<and> last_replan_time (app_of (step (Refreshed True env) s)) = last_replan_time (app_of s)"
    by (simp add: refresh_skip dispatched_def split: option.splits)
  have b: "Refresh False \<notin> set (ui_queue (run evs init_system))"
    using exclusive_run [of evs] by (simp add: exclusive_def)
  have c: "workers (run (WorkerReturns result # map RunCallback envs) s) = []
        \<and> last_replan_time (app_of (run (WorkerReturns result # map RunCallback envs) s))
            = last_replan_time (app_of s)"
    if w: "workers s = [reason]" and q: "ui_queue s = []"
  proof -
    let ?s1 = "s\<lparr>workers := [], ui_queue := replan_async result\<rparr>"
    have s1: "step (WorkerReturns result) s = ?s1" using w q by simp
    have "Refresh False \<notin> set (ui_queue ?s1)" by (simp add: no_check_refresh_posted)
    from run_callbacks_no_check [OF this, of envs] show ?thesis
      by (simp add: run_def s1 del: step.simps)
  qed
  show ?thesis using a b c no_check_refresh_posted [of result] refresh_skip [of env st] by blast
qed

text \<open>
  A successful re-plan ends six seconds after it was accepted, under a critical warning:
  its own refresh starts nothing, where a refresh that asks for the check would.
\<close>

theorem replan_refresh_skips_check_witness:
  "workers running_system = [''Critical capacity overload detected'']
   \<and> ui_queue running_system = []
   \<and> replan_async (Success 2 1) = [ClearReplanning, ShowInfo ''Auto-Replan Complete'', Refresh True]
   \<and> run (WorkerReturns (Success 2 1) #
         map RunCallback [overloaded_env 6000000, overloaded_env 6000000, overloaded_env 6000000])
        running_system
       = \<lparr>app_of = planned_app\<lparr>last_replan_time := Some 0\<rparr>, workers = [], ui_queue = []\<rparr>
   \<and> workers (step (Refreshed False (overloaded_env 6000000))
        \<lparr>app_of = planned_app\<lparr>last_replan_time := Some 0\<rparr>, workers = [], ui_queue = []\<rparr>)
       = [''Critical capacity overload detected'']"
proof -
  let ?evs = "WorkerReturns (Success 2 1) #
         map RunCallback [overloaded_env 6000000, overloaded_env 6000000, overloaded_env 6000000]"
  have w: "workers running_system = [''Critical capacity overload detected'']"
    and q: "ui_queue running_system = []"
    by (simp_all add: running_system_state)
  from replan_refresh_skips_check [of "Success 2 1" "overloaded_env 6000000" planned_app running_system "[]"
      "''Critical capacity overload detected''"
      "[overloaded_env 6000000, overloaded_env 6000000, overloaded_env 6000000]"] w q
  have n: "workers (run ?evs running_system) = []"
    and r: "Refresh False \<notin> set (replan_async (Success 2 1))"
    by simp_all
  have e: "run ?evs running_system
       = \<lparr>app_of = planned_app\<lparr>last_replan_time := Some 0\<rparr>, workers = [], ui_queue = []\<rparr>"
    by (simp add: run_def running_system_state run_callback_def refresh_skip overloaded_env_def
        dispatched_def planned_app_def init_app_def)
  have d: "workers (step (Refreshed False (overloaded_env 6000000))
        \<lparr>app_of = planned_app\<lparr>last_replan_time := Some 0\<rparr>, workers = [], ui_queue = []\<rparr>)
       = [''Critical capacity overload detected'']"
    by (simp add: refresh_events_def overloaded_env_def planned_app_def init_app_def Let_def
        check_and_replan_def in_cooldown_def has_task_events_def task_event_def critical_of_def
        critical_warning_def dispatched_def)
  show ?thesis using w q n r e d by simp
qed

end
